theory Spec2Isabelle
  imports Complex_Main "HOL-Library.Multiset"
begin

section \<open>Floating-point values\<close>

text \<open>
  The arrays of \<^verbatim>\<open>rvea.py\<close> hold IEEE doubles. They are modelled as the reals
  extended by the two infinities and by NaN, with the IEEE rules for the special values.
  Rounding, overflow and the sign of zero are not modelled: a finite operation returns the
  exact real result.
\<close>

datatype fl = Fin real | PInf | NInf | NaN

fun fneg :: "fl \<Rightarrow> fl" where
  "fneg (Fin x) = Fin (- x)"
| "fneg PInf = NInf"
| "fneg NInf = PInf"
| "fneg NaN = NaN"

fun fadd :: "fl \<Rightarrow> fl \<Rightarrow> fl" where
  "fadd NaN b = NaN"
| "fadd a NaN = NaN"
| "fadd (Fin x) (Fin y) = Fin (x + y)"
| "fadd PInf NInf = NaN"
| "fadd NInf PInf = NaN"
| "fadd PInf b = PInf"
| "fadd a PInf = PInf"
| "fadd NInf b = NInf"
| "fadd a NInf = NInf"

definition fsub :: "fl \<Rightarrow> fl \<Rightarrow> fl" where
  "fsub a b = fadd a (fneg b)"

fun fmul :: "fl \<Rightarrow> fl \<Rightarrow> fl" where
  "fmul NaN b = NaN"
| "fmul a NaN = NaN"
| "fmul (Fin x) (Fin y) = Fin (x * y)"
| "fmul (Fin x) PInf = (if x = 0 then NaN else if 0 < x then PInf else NInf)"
| "fmul (Fin x) NInf = (if x = 0 then NaN else if 0 < x then NInf else PInf)"
| "fmul PInf (Fin y) = (if y = 0 then NaN else if 0 < y then PInf else NInf)"
| "fmul NInf (Fin y) = (if y = 0 then NaN else if 0 < y then NInf else PInf)"
| "fmul PInf PInf = PInf"
| "fmul PInf NInf = NInf"
| "fmul NInf PInf = NInf"
| "fmul NInf NInf = PInf"

fun fdiv :: "fl \<Rightarrow> fl \<Rightarrow> fl" where
  "fdiv NaN b = NaN"
| "fdiv a NaN = NaN"
| "fdiv (Fin x) (Fin y) =
     (if y = 0 then (if x = 0 then NaN else if 0 < x then PInf else NInf)
      else Fin (x / y))"
| "fdiv (Fin x) PInf = Fin 0"
| "fdiv (Fin x) NInf = Fin 0"
| "fdiv PInf (Fin y) = (if 0 \<le> y then PInf else NInf)"
| "fdiv NInf (Fin y) = (if 0 \<le> y then NInf else PInf)"
| "fdiv a b = NaN"

fun fsqrt :: "fl \<Rightarrow> fl" where
  "fsqrt (Fin x) = (if x < 0 then NaN else Fin (sqrt x))"
| "fsqrt PInf = PInf"
| "fsqrt a = NaN"

fun farccos :: "fl \<Rightarrow> fl" where
  "farccos (Fin x) = (if - 1 \<le> x \<and> x \<le> 1 then Fin (arccos x) else NaN)"
| "farccos a = NaN"

fun flt :: "fl \<Rightarrow> fl \<Rightarrow> bool" where
  "flt (Fin x) (Fin y) = (x < y)"
| "flt (Fin x) PInf = True"
| "flt NInf (Fin y) = True"
| "flt NInf PInf = True"
| "flt a b = False"

definition fle :: "fl \<Rightarrow> fl \<Rightarrow> bool" where
  "fle a b = (a \<noteq> NaN \<and> (flt a b \<or> a = b))"

definition np_minimum :: "fl \<Rightarrow> fl \<Rightarrow> fl" where
  "np_minimum a b = (if a = NaN \<or> b = NaN then NaN else if fle a b then a else b)"

definition np_maximum :: "fl \<Rightarrow> fl \<Rightarrow> fl" where
  "np_maximum a b = (if a = NaN \<or> b = NaN then NaN else if fle b a then a else b)"


section \<open>Array operations\<close>

text \<open>
  A one-dimensional array is the list of its entries and a two-dimensional array the list
  of its rows. A numpy array is rectangular; where rows of different lengths would meet,
  numpy raises ValueError, and the operations below that can be called so say where they
  check for it.
\<close>

type_synonym vec = "fl list"
type_synonym matrix = "fl list list"

datatype error =
  ValueError | IndexError | TypeError | ZeroDivisionError | AttributeError | ComplexResult

text \<open>The literal \<^verbatim>\<open>1e-64\<close>.\<close>

definition tiny :: real where
  "tiny = 1 / 10 ^ 64"

definition fsum :: "vec \<Rightarrow> fl" where
  "fsum xs = foldr fadd xs (Fin 0)"

text \<open>One entry of a matrix product \<^verbatim>\<open>A @ B.T\<close>: a row of A against a row of B.\<close>

definition dot :: "vec \<Rightarrow> vec \<Rightarrow> fl" where
  "dot a b = fsum (map2 fmul a b)"

text \<open>\<^verbatim>\<open>np.linalg.norm(A, axis=1)\<close> on one row: the square root of the sum of squares.\<close>

definition linalg_norm :: "vec \<Rightarrow> fl" where
  "linalg_norm r = fsqrt (fsum (map (\<lambda>x. fmul x x) r))"

text \<open>
  \<^verbatim>\<open>argmin\<close> scans from the left, moves on when an entry is not \<open>\<ge>\<close> the best so far
  (so on a smaller entry and on a NaN), and stops at a NaN. On an empty sequence numpy
  raises ValueError; the callers check for that before they call.
\<close>

fun argmin_from :: "fl \<Rightarrow> nat \<Rightarrow> nat \<Rightarrow> fl list \<Rightarrow> nat" where
  "argmin_from mp mi i [] = mi"
| "argmin_from mp mi i (x # xs) =
     (if mp = NaN then mi
      else if \<not> fle mp x then argmin_from x i (Suc i) xs
      else argmin_from mp mi (Suc i) xs)"

definition np_argmin :: "fl list \<Rightarrow> nat" where
  "np_argmin xs = (case xs of [] \<Rightarrow> 0 | x # ys \<Rightarrow> argmin_from x 0 1 ys)"

text \<open>
  \<^verbatim>\<open>np.sort\<close>: ascending, NaN last. The sorted array does not depend on the sorting
  algorithm; the model inserts one entry after the other.
\<close>

definition sort_le :: "fl \<Rightarrow> fl \<Rightarrow> bool" where
  "sort_le a b = (b = NaN \<or> fle a b)"

fun insort_fl :: "fl \<Rightarrow> fl list \<Rightarrow> fl list" where
  "insort_fl x [] = [x]"
| "insort_fl x (y # ys) = (if sort_le x y then x # y # ys else y # insort_fl x ys)"

definition np_sort :: "fl list \<Rightarrow> fl list" where
  "np_sort xs = foldr insort_fl xs []"

text \<open>
  \<^verbatim>\<open>A.min(axis=0)\<close> and \<^verbatim>\<open>A.max(axis=0)\<close>: the reduction of the rows by the
  element-wise minimum (maximum), which propagates NaN. On an array with no rows numpy
  raises ValueError; the callers check for that before they call.
\<close>

definition col_reduce :: "(fl \<Rightarrow> fl \<Rightarrow> fl) \<Rightarrow> matrix \<Rightarrow> vec" where
  "col_reduce f A = (case A of [] \<Rightarrow> [] | r # rs \<Rightarrow> foldl (map2 f) r rs)"

definition col_min :: "matrix \<Rightarrow> vec" where
  "col_min A = col_reduce np_minimum A"

definition col_max :: "matrix \<Rightarrow> vec" where
  "col_max A = col_reduce np_maximum A"

text \<open>
  Python's \<^verbatim>\<open>x ** y\<close> on two floats. A zero base with a negative exponent raises
  ZeroDivisionError. A negative base with a fractional exponent is no exception in Python
  but a complex number, which the model does not follow: it stops with \<open>ComplexResult\<close>
  (the termination classes assert \<^verbatim>\<open>progress >= 0\<close>).
\<close>

definition py_pow :: "real \<Rightarrow> real \<Rightarrow> error + real" where
  "py_pow x y =
     (if y = 0 then Inr 1
      else if x = 0 then (if y < 0 then Inl ZeroDivisionError else Inr 0)
      else if 0 < x then Inr (x powr y)
      else if y = of_int \<lfloor>y\<rfloor> then Inr (if even \<lfloor>y\<rfloor> then \<bar>x\<bar> powr y else - (\<bar>x\<bar> powr y))
      else Inl ComplexResult)"

section \<open>Reference-direction geometry\<close>

text \<open>
  \<^verbatim>\<open>
  def calc_V(ref_dirs):
      return ref_dirs / np.linalg.norm(ref_dirs, axis=1)[:, None]
  \<close>
\<close>

definition calc_V :: "matrix \<Rightarrow> matrix" where
  "calc_V ref_dirs = map (\<lambda>r. map (\<lambda>x. fdiv x (linalg_norm r)) r) ref_dirs"

text \<open>
  \<^verbatim>\<open>
  def calc_gamma(V):
      gamma = np.arccos((- np.sort(-1 * V @ V.T))[:, 1])
      gamma = np.maximum(gamma, 1e-64)
      return gamma
  \<close>
  \<^verbatim>\<open>-1 * V @ V.T\<close> is \<^verbatim>\<open>(-1 * V) @ V.T\<close>. Column 1 of the sorted matrix exists only
  when V has two rows or more: with fewer the index raises IndexError.
\<close>

definition neg_gram_row :: "matrix \<Rightarrow> vec \<Rightarrow> vec" where
  "neg_gram_row V v = map (\<lambda>w. dot (map (fmul (Fin (- 1))) v) w) V"

definition calc_gamma :: "matrix \<Rightarrow> error + vec" where
  "calc_gamma V =
     (if length V < 2 then Inl IndexError
      else Inr (map (\<lambda>v. np_maximum (farccos (fneg (np_sort (neg_gram_row V v) ! 1))) (Fin tiny)) V))"


section \<open>The survival engine\<close>

text \<open>
  An individual of the population: its objective vector \<^verbatim>\<open>F\<close>, its constraint
  violation \<^verbatim>\<open>CV\<close>, and the attributes that selection sets (absent until then).
\<close>

record individual =
  ind_F :: vec
  ind_CV :: fl
  ind_theta :: "fl option"
  ind_apd :: "fl option"
  ind_niche :: "nat option"
  ind_opt :: "bool option"

datatype termination_type =
  MaximumGenerationTermination | MaximumFunctionCallTermination | OtherTermination

record termination_criterion =
  term_type :: termination_type
  perc :: real

text \<open>
  The fields of \<^verbatim>\<open>APDSurvival\<close>. \<^verbatim>\<open>extreme_ref_dirs\<close> is computed by the constructor
  and read nowhere; it is left out.
\<close>

record apd_survival =
  sv_alpha :: real
  sv_niches :: "nat list list option"
  sv_V :: matrix
  sv_gamma :: vec
  sv_ideal :: "vec option"
  sv_nadir :: "vec option"
  sv_ref_dirs :: matrix

text \<open>
  \<^verbatim>\<open>APDSurvival.__init__\<close>. \<^verbatim>\<open>n_dim = ref_dirs.shape[1]\<close> is the length of a row;
  the ideal point starts as \<^verbatim>\<open>np.full(n_dim, np.inf)\<close> and the nadir point as None.
  The only call that can raise is \<open>calc_gamma\<close>.
\<close>

definition n_dim_of :: "matrix \<Rightarrow> nat" where
  "n_dim_of ref_dirs = (case ref_dirs of [] \<Rightarrow> 0 | r # rs \<Rightarrow> length r)"

definition APDSurvival_init :: "matrix \<Rightarrow> real \<Rightarrow> error + apd_survival" where
  "APDSurvival_init ref_dirs alpha =
     (case calc_gamma (calc_V ref_dirs) of
        Inl e \<Rightarrow> Inl e
      | Inr g \<Rightarrow>
          Inr \<lparr>sv_alpha = alpha, sv_niches = None, sv_V = calc_V ref_dirs, sv_gamma = g,
               sv_ideal = Some (replicate (n_dim_of ref_dirs) PInf), sv_nadir = None,
               sv_ref_dirs = ref_dirs\<rparr>)"

text \<open>
  \<^verbatim>\<open>
  def adapt(self):
      if self.ideal is not None and self.nadir is not None:
          self.V = calc_V(calc_V(self.ref_dirs) * (self.nadir - self.ideal))
          self.gamma = calc_gamma(self.V)
  \<close>
  The result is the new state and the exception, if one was raised. The subtraction and
  the product raise ValueError when nadir, ideal point and the rows of \<^verbatim>\<open>ref_dirs\<close>
  differ in length (the broadcast of an axis of length 1 is not modelled);
  \<^verbatim>\<open>self.V\<close> is already assigned when \<open>calc_gamma\<close> raises.
\<close>

definition adapt :: "apd_survival \<Rightarrow> apd_survival \<times> error option" where
  "adapt st =
     (case (sv_ideal st, sv_nadir st) of
        (Some idl, Some nd) \<Rightarrow>
          if length nd \<noteq> length idl \<or> (\<exists>r \<in> set (sv_ref_dirs st). length r \<noteq> length idl)
          then (st, Some ValueError)
          else
            (let V' = calc_V (map (\<lambda>r. map2 fmul r (map2 fsub nd idl)) (calc_V (sv_ref_dirs st)));
                 st1 = st\<lparr>sv_V := V'\<rparr>
             in case calc_gamma V' of
                  Inl e \<Rightarrow> (st1, Some e)
                | Inr g \<Rightarrow> (st1\<lparr>sv_gamma := g\<rparr>, None))
      | _ \<Rightarrow> (st, None))"

subsection \<open>The steps of selection\<close>

text \<open>\<^verbatim>\<open>F = F - self.ideal\<close>\<close>

definition translate :: "vec \<Rightarrow> matrix \<Rightarrow> matrix" where
  "translate idl Fm = map (\<lambda>r. map2 fsub r idl) Fm"

text \<open>
  \<^verbatim>\<open>
  dist_to_ideal = np.linalg.norm(F, axis=1)
  dist_to_ideal[dist_to_ideal < 1e-64] = 1e-64
  \<close>
\<close>

definition dist_to_ideal :: "matrix \<Rightarrow> vec" where
  "dist_to_ideal Ft = map (\<lambda>r. if flt (linalg_norm r) (Fin tiny) then Fin tiny else linalg_norm r) Ft"

text \<open>\<^verbatim>\<open>F_prime = F / dist_to_ideal[:, None]\<close>\<close>

definition F_prime :: "matrix \<Rightarrow> vec \<Rightarrow> matrix" where
  "F_prime Ft d2i = map2 (\<lambda>r d. map (\<lambda>x. fdiv x d) r) Ft d2i"

text \<open>\<^verbatim>\<open>acute_angle = np.arccos(F_prime @ self.V.T)\<close>\<close>

definition acute_angle :: "matrix \<Rightarrow> matrix \<Rightarrow> matrix" where
  "acute_angle Fp V = map (\<lambda>fp. map (\<lambda>v. farccos (dot fp v)) V) Fp"

text \<open>
  \<^verbatim>\<open>
  niches_to_ind = [[] for _ in range(len(self.V))]
  for k, i in enumerate(niches):
      niches_to_ind[i].append(k)
  \<close>
\<close>

definition niches_to_ind :: "nat \<Rightarrow> nat list \<Rightarrow> nat list list" where
  "niches_to_ind N niches =
     foldl (\<lambda>acc (k, i). acc[i := acc ! i @ [k]]) (replicate N []) (enumerate 0 niches)"

text \<open>
  \<^verbatim>\<open>pop[assigned_to_niche].set(theta=theta, apd=apd, niche=k, opt=False)\<close>: the j-th
  assigned individual gets the j-th entry of \<^verbatim>\<open>theta\<close> and of \<^verbatim>\<open>apd\<close>.
\<close>

definition set_attrs :: "individual list \<Rightarrow> nat list \<Rightarrow> vec \<Rightarrow> vec \<Rightarrow> nat \<Rightarrow> individual list" where
  "set_attrs pop assigned theta apd k =
     foldl (\<lambda>p (i, t, a).
              p[i := (p ! i)\<lparr>ind_theta := Some t, ind_apd := Some a,
                             ind_niche := Some k, ind_opt := Some False\<rparr>])
       pop (zip assigned (zip theta apd))"

text \<open>
  The body of \<^verbatim>\<open>for k in range(len(self.V))\<close>, on the population and the list of
  survivors so far. In a niche that is not empty, \<^verbatim>\<open>self.gamma[k]\<close> raises IndexError
  when \<open>gamma\<close> has no entry \<open>k\<close>, and \<^verbatim>\<open>progress ** self.alpha\<close> may raise.
\<close>

definition niche_step ::
  "nat \<Rightarrow> real \<Rightarrow> real \<Rightarrow> vec \<Rightarrow> matrix \<Rightarrow> vec \<Rightarrow> nat list list \<Rightarrow> nat \<Rightarrow>
   individual list \<times> nat list \<Rightarrow> error + individual list \<times> nat list" where
  "niche_step n_obj progress alpha gam acute d2i n2i k ps =
     (case ps of (pop, survivors) \<Rightarrow>
       (let assigned_to_niche = n2i ! k in
        if length assigned_to_niche > 0 then
          if length gam \<le> k then Inl IndexError
          else
            (let gamma = gam ! k;
                 theta = map (\<lambda>i. acute ! i ! k) assigned_to_niche;
                 M = (if n_obj > 2 then real n_obj else 1)
             in case py_pow progress alpha of
                  Inl e \<Rightarrow> Inl e
                | Inr pw \<Rightarrow>
                    (let penalty = map (\<lambda>t. fmul (Fin (M * pw)) (fdiv t gamma)) theta;
                         apd = map2 (\<lambda>i p. fmul (d2i ! i) (fadd (Fin 1) p)) assigned_to_niche penalty;
                         survivor = assigned_to_niche ! np_argmin apd;
                         pop1 = set_attrs pop assigned_to_niche theta apd k;
                         pop2 = pop1[survivor := (pop1 ! survivor)\<lparr>ind_opt := Some True\<rparr>]
                     in Inr (pop2, survivors @ [survivor])))
        else Inr (pop, survivors)))"

text \<open>A \<^verbatim>\<open>for\<close> loop whose body may raise: the first exception ends it.\<close>

fun for_each :: "('k \<Rightarrow> 's \<Rightarrow> error + 's) \<Rightarrow> 'k list \<Rightarrow> 's \<Rightarrow> error + 's" where
  "for_each body [] s = Inr s"
| "for_each body (k # ks) s = (case body k s of Inl e \<Rightarrow> Inl e | Inr s' \<Rightarrow> for_each body ks s')"

text \<open>
  \<^verbatim>\<open>APDSurvival._do\<close>. The result is the new state of the engine and either the
  exception raised or the population with its attributes set and the survivors
  \<^verbatim>\<open>pop[survivors]\<close>.

  The exceptions of the model, in the order of the source:
  \<^item> \<^verbatim>\<open>F.min(axis=0)\<close> raises ValueError on an empty population;
  \<^item> \<^verbatim>\<open>np.minimum(..., self.ideal)\<close> raises TypeError when the ideal point is None and
    ValueError when the rows of \<^verbatim>\<open>F\<close> and the ideal point differ in length (the broadcast
    of an axis of length 1 is not modelled);
  \<^item> \<^verbatim>\<open>F_prime @ self.V.T\<close> raises ValueError when a row of \<open>V\<close> has another length;
  \<^item> \<^verbatim>\<open>argmin(axis=1)\<close> raises ValueError when there is no reference direction;
  \<^item> the loop body raises as described above.
  The ideal point is assigned before the last three, so the state returned with them holds
  it. After the loop the survivors are not empty, every individual being in a niche, so
  \<^verbatim>\<open>max(axis=0)\<close> does not raise. The test of the termination type has an empty body
  (\<^verbatim>\<open>pass\<close>; the raise is a comment).
\<close>

definition APDSurvival_do ::
  "nat \<Rightarrow> apd_survival \<Rightarrow> individual list \<Rightarrow> termination_criterion \<Rightarrow>
   apd_survival \<times> (error + individual list \<times> individual list)" where
  "APDSurvival_do n_obj st pop trm =
     (let u = (if term_type trm \<notin> {MaximumGenerationTermination, MaximumFunctionCallTermination}
               then () else ());
          progress = perc trm;
          Fm = map ind_F pop
      in if pop = [] then (st, Inl ValueError)
         else case sv_ideal st of
           None \<Rightarrow> (st, Inl TypeError)
         | Some idl \<Rightarrow>
             if \<exists>r \<in> set Fm. length r \<noteq> length idl then (st, Inl ValueError)
             else
               (let ideal' = map2 np_minimum (col_min Fm) idl;
                    st1 = st\<lparr>sv_ideal := Some ideal'\<rparr>;
                    Ft = translate ideal' Fm;
                    d2i = dist_to_ideal Ft;
                    acute = acute_angle (F_prime Ft d2i) (sv_V st)
                in if \<exists>v \<in> set (sv_V st). length v \<noteq> length idl then (st1, Inl ValueError)
                   else if sv_V st = [] then (st1, Inl ValueError)
                   else
                     (let niches = map np_argmin acute;
                          n2i = niches_to_ind (length (sv_V st)) niches
                      in case for_each (niche_step n_obj progress (sv_alpha st) (sv_gamma st) acute d2i n2i)
                                [0..<length (sv_V st)] (pop, []) of
                           Inl e \<Rightarrow> (st1, Inl e)
                         | Inr (pop', survivors) \<Rightarrow>
                             (let ret = map (\<lambda>s. pop' ! s) survivors
                              in (st1\<lparr>sv_niches := Some n2i,
                                      sv_nadir := Some (col_max (map ind_F ret))\<rparr>,
                                  Inr (pop', ret))))))"

section \<open>The optimizer shell\<close>

text \<open>
  The fields of \<^verbatim>\<open>RVEA\<close> that its three methods read or write. \<^verbatim>\<open>n_adapt\<close> does not
  exist before \<^verbatim>\<open>_setup\<close> has run.
\<close>

record rvea =
  rv_ref_dirs :: "matrix option"
  rv_alpha :: real
  rv_adapt_freq :: real
  rv_pop_size :: "nat option"
  rv_n_offsprings :: "nat option"
  rv_survival :: "apd_survival option"
  rv_n_adapt :: "int option"
  rv_termination :: termination_criterion
  rv_pop :: "individual list"
  rv_opt :: "individual list option"



text \<open>
  \<^verbatim>\<open>
  def _set_optimum(self, **kwargs):
      if not has_feasible(self.pop):
          self.opt = self.pop[[np.argmin(self.pop.get("CV"))]]
      else:
          self.opt = self.pop
  \<close>
  \<^verbatim>\<open>has_feasible\<close> is imported from another module and is a parameter here.
  \<^verbatim>\<open>np.argmin\<close> raises ValueError on an empty population.
\<close>

definition RVEA_set_optimum :: "(individual list \<Rightarrow> bool) \<Rightarrow> rvea \<Rightarrow> error + rvea" where
  "RVEA_set_optimum has_feasible self =
     (if \<not> has_feasible (rv_pop self) then
        (if rv_pop self = [] then Inl ValueError
         else Inr (self\<lparr>rv_opt := Some [rv_pop self ! np_argmin (map ind_CV (rv_pop self))]\<rparr>))
      else Inr (self\<lparr>rv_opt := Some (rv_pop self)\<rparr>))"

text \<open>
  Modelled from the spec: \<^verbatim>\<open>has_feasible\<close> of \<^verbatim>\<open>pymoo.util.misc\<close> is not among the
  sources. The spec gives a candidate a constraint violation that is 0 if it is feasible.
\<close>

definition has_feasible_spec :: "individual list \<Rightarrow> bool" where
  "has_feasible_spec pop = list_ex (\<lambda>c. ind_CV c = Fin 0) pop"

section \<open>The quantities of one selection call\<close>

text \<open>
  Names for the arrays that \<^verbatim>\<open>_do\<close> computes from the ideal point \<open>idl\<close> it finds, the
  unit directions \<open>V\<close> and the population: the new ideal point, \<^verbatim>\<open>dist_to_ideal\<close>,
  \<^verbatim>\<open>acute_angle\<close> and \<^verbatim>\<open>niches\<close>.
\<close>

definition new_ideal :: "vec \<Rightarrow> individual list \<Rightarrow> vec" where
  "new_ideal idl pop = map2 np_minimum (col_min (map ind_F pop)) idl"

definition pop_dist :: "vec \<Rightarrow> individual list \<Rightarrow> vec" where
  "pop_dist idl pop = dist_to_ideal (translate (new_ideal idl pop) (map ind_F pop))"

definition pop_angle :: "vec \<Rightarrow> matrix \<Rightarrow> individual list \<Rightarrow> matrix" where
  "pop_angle idl V pop =
     acute_angle (F_prime (translate (new_ideal idl pop) (map ind_F pop)) (pop_dist idl pop)) V"

definition pop_niches :: "vec \<Rightarrow> matrix \<Rightarrow> individual list \<Rightarrow> nat list" where
  "pop_niches idl V pop = map np_argmin (pop_angle idl V pop)"

text \<open>The individuals assigned to direction \<open>k\<close>, in the order of the population.\<close>

definition assigned_to :: "nat list \<Rightarrow> nat \<Rightarrow> nat list" where
  "assigned_to niches k = filter (\<lambda>i. niches ! i = k) [0..<length niches]"

text \<open>
  The angle-penalized distance in the words of the specification:
  \<open>apd = dist_to_ideal * (1 + M * progress^alpha * (theta / gamma))\<close>, with
  \<open>M\<close> the number of objectives when that is above 2 and 1 otherwise; \<open>pw\<close> stands
  for \<open>progress^alpha\<close>.
\<close>

definition apd_formula :: "nat \<Rightarrow> real \<Rightarrow> fl \<Rightarrow> fl \<Rightarrow> fl \<Rightarrow> fl" where
  "apd_formula n_obj pw d theta gamma =
     fmul d (fadd (Fin 1) (fmul (Fin ((if n_obj > 2 then real n_obj else 1) * pw)) (fdiv theta gamma)))"

text \<open>
  The value that the loop body computes for individual \<open>i\<close> in niche \<open>k\<close>, and the
  individual that it picks for the niche.
\<close>

definition niche_apd :: "nat \<Rightarrow> real \<Rightarrow> vec \<Rightarrow> matrix \<Rightarrow> vec \<Rightarrow> nat \<Rightarrow> nat \<Rightarrow> fl" where
  "niche_apd n_obj pw gam acute d2i k i = apd_formula n_obj pw (d2i ! i) (acute ! i ! k) (gam ! k)"

definition niche_survivor ::
  "nat \<Rightarrow> real \<Rightarrow> vec \<Rightarrow> matrix \<Rightarrow> vec \<Rightarrow> nat list list \<Rightarrow> nat \<Rightarrow> nat" where
  "niche_survivor n_obj pw gam acute d2i n2i k =
     n2i ! k ! np_argmin (map (niche_apd n_obj pw gam acute d2i k) (n2i ! k))"

text \<open>
  What the loop body writes on individual \<open>i\<close> of niche \<open>k\<close>: first the four
  attributes with \<^verbatim>\<open>opt=False\<close>, then \<^verbatim>\<open>opt=True\<close> on the survivor.
\<close>

definition mark :: "nat \<Rightarrow> real \<Rightarrow> vec \<Rightarrow> matrix \<Rightarrow> vec \<Rightarrow> nat \<Rightarrow> nat \<Rightarrow> individual \<Rightarrow> individual" where
  "mark n_obj pw gam acute d2i k i c =
     c\<lparr>ind_theta := Some (acute ! i ! k), ind_apd := Some (niche_apd n_obj pw gam acute d2i k i),
       ind_niche := Some k, ind_opt := Some False\<rparr>"

definition final ::
  "nat \<Rightarrow> real \<Rightarrow> vec \<Rightarrow> matrix \<Rightarrow> vec \<Rightarrow> nat list list \<Rightarrow> nat \<Rightarrow> nat \<Rightarrow> individual \<Rightarrow> individual" where
  "final n_obj pw gam acute d2i n2i k i c =
     c\<lparr>ind_theta := Some (acute ! i ! k), ind_apd := Some (niche_apd n_obj pw gam acute d2i k i),
       ind_niche := Some k, ind_opt := Some (i = niche_survivor n_obj pw gam acute d2i n2i k)\<rparr>"

text \<open>
  What the loop body returns in a niche whose \<open>gamma[k]\<close> exists, when the power has
  the value \<open>pw\<close>; and the loop over all directions with this body, from the population
  and no survivors.
\<close>

definition niche_body ::
  "nat \<Rightarrow> real \<Rightarrow> vec \<Rightarrow> matrix \<Rightarrow> vec \<Rightarrow> nat list list \<Rightarrow> nat \<Rightarrow>
   individual list \<times> nat list \<Rightarrow> individual list \<times> nat list" where
  "niche_body n_obj pw gam acute d2i n2i k ps =
     (case ps of (pop, survivors) \<Rightarrow>
       (let assigned_to_niche = n2i ! k in
        if length assigned_to_niche > 0 then
          (let gamma = gam ! k;
               theta = map (\<lambda>i. acute ! i ! k) assigned_to_niche;
               M = (if n_obj > 2 then real n_obj else 1);
               penalty = map (\<lambda>t. fmul (Fin (M * pw)) (fdiv t gamma)) theta;
               apd = map2 (\<lambda>i p. fmul (d2i ! i) (fadd (Fin 1) p)) assigned_to_niche penalty;
               survivor = assigned_to_niche ! np_argmin apd;
               pop1 = set_attrs pop assigned_to_niche theta apd k;
               pop2 = pop1[survivor := (pop1 ! survivor)\<lparr>ind_opt := Some True\<rparr>]
           in (pop2, survivors @ [survivor]))
        else (pop, survivors)))"


definition niche_loop ::
  "nat \<Rightarrow> real \<Rightarrow> apd_survival \<Rightarrow> vec \<Rightarrow> individual list \<Rightarrow> individual list \<times> nat list" where
  "niche_loop n_obj pw st idl pop =
     foldl (\<lambda>ps k. niche_body n_obj pw (sv_gamma st) (pop_angle idl (sv_V st) pop) (pop_dist idl pop)
                      (niches_to_ind (length (sv_V st)) (pop_niches idl (sv_V st) pop)) k ps)
       (pop, []) [0..<length (sv_V st)]"

section \<open>Unit directions and their similarities\<close>







section \<open>Sequences of calls\<close>

text \<open>
  The engine is driven by calls of \<^verbatim>\<open>_do\<close> and of \<^verbatim>\<open>adapt\<close>. A call that raises
  leaves the state it had reached, and the next call starts from it.
\<close>

datatype call = Select "individual list" termination_criterion | Adapt

fun run_call :: "nat \<Rightarrow> apd_survival \<Rightarrow> call \<Rightarrow> apd_survival" where
  "run_call n_obj st (Select pop trm) = fst (APDSurvival_do n_obj st pop trm)"
| "run_call n_obj st Adapt = fst (adapt st)"

fun no_NaN_call :: "call \<Rightarrow> bool" where
  "no_NaN_call (Select pop trm) = list_all (\<lambda>c. NaN \<notin> set (ind_F c)) pop"
| "no_NaN_call Adapt = True"

definition run_calls :: "nat \<Rightarrow> apd_survival \<Rightarrow> call list \<Rightarrow> apd_survival" where
  "run_calls n_obj st calls = foldl (run_call n_obj) st calls"

section \<open>A small engine for the examples\<close>

text \<open>
  Two objectives and the two axes as reference directions. Both individuals lie on the
  first axis, so the niche of the second direction stays empty.
\<close>

definition ex_ref_dirs :: matrix where
  "ex_ref_dirs = [[Fin 1, Fin 0], [Fin 0, Fin 1]]"

definition ex_ind :: "vec \<Rightarrow> individual" where
  "ex_ind f = \<lparr>ind_F = f, ind_CV = Fin 0, ind_theta = None, ind_apd = None,
              ind_niche = None, ind_opt = None\<rparr>"

definition ex_pop :: "individual list" where
  "ex_pop = [ex_ind [Fin 1, Fin 0], ex_ind [Fin 2, Fin 0]]"

definition ex_term :: termination_criterion where
  "ex_term = \<lparr>term_type = OtherTermination, perc = 1 / 2\<rparr>"

definition ex_state :: apd_survival where
  "ex_state = \<lparr>sv_alpha = 2, sv_niches = None, sv_V = ex_ref_dirs,
               sv_gamma = [Fin (pi / 2), Fin (pi / 2)],
               sv_ideal = Some [PInf, PInf], sv_nadir = None, sv_ref_dirs = ex_ref_dirs\<rparr>"

text \<open>What selection leaves of the example: the state, the survivor and the other individual.\<close>

definition ex_state_after :: apd_survival where
  "ex_state_after = ex_state\<lparr>sv_niches := Some [[0, 1], []], sv_ideal := Some [Fin 1, Fin 0],
                              sv_nadir := Some [Fin 1, Fin 0]\<rparr>"

definition ex_survivor :: individual where
  "ex_survivor = (ex_ind [Fin 1, Fin 0])\<lparr>ind_theta := Some (Fin (pi / 2)),
                   ind_apd := Some (Fin (tiny * (1 + 1 / 4))), ind_niche := Some 0,
                   ind_opt := Some True\<rparr>"

definition ex_other :: individual where
  "ex_other = (ex_ind [Fin 2, Fin 0])\<lparr>ind_theta := Some (Fin 0), ind_apd := Some (Fin 1),
                ind_niche := Some 0, ind_opt := Some False\<rparr>"





text \<open>
  A shell over the example engine, before \<^verbatim>\<open>_setup\<close>, and a population without
  a feasible individual.
\<close>

definition ex_shell :: rvea where
  "ex_shell = \<lparr>rv_ref_dirs = Some ex_ref_dirs, rv_alpha = 2, rv_adapt_freq = 1 / 10,
               rv_pop_size = None, rv_n_offsprings = None, rv_survival = None,
               rv_n_adapt = None, rv_termination = ex_term, rv_pop = ex_pop, rv_opt = None\<rparr>"

definition ex_infeasible :: "individual list" where
  "ex_infeasible = [(ex_ind [Fin 1, Fin 0])\<lparr>ind_CV := Fin 2\<rparr>,
                    (ex_ind [Fin 2, Fin 0])\<lparr>ind_CV := Fin 1\<rparr>,
                    (ex_ind [Fin 0, Fin 3])\<lparr>ind_CV := Fin 1\<rparr>]"

section \<open>The order on floating-point values\<close>

lemma fle_refl: "a \<noteq> NaN \<Longrightarrow> fle a a"
  by (simp add: fle_def)

lemma flt_not_NaN: "flt a b \<Longrightarrow> a \<noteq> NaN \<and> b \<noteq> NaN"
  by (cases a; cases b; simp)

lemma flt_imp_fle: "flt a b \<Longrightarrow> fle a b"
  by (cases a; cases b; simp add: fle_def)

lemma fle_not_NaN: "fle a b \<Longrightarrow> a \<noteq> NaN \<and> b \<noteq> NaN"
  by (cases a; cases b; simp add: fle_def)

lemma not_fle_flt: "a \<noteq> NaN \<Longrightarrow> b \<noteq> NaN \<Longrightarrow> \<not> fle a b \<Longrightarrow> flt b a"
  by (cases a; cases b; simp add: fle_def)

lemma flt_irrefl: "\<not> flt a a"
  by (cases a; simp)

lemma flt_trans: "flt a b \<Longrightarrow> flt b c \<Longrightarrow> flt a c"
  by (cases a; cases b; cases c; simp)

lemma flt_fle_trans: "flt a b \<Longrightarrow> fle b c \<Longrightarrow> flt a c"
  by (cases a; cases b; cases c; auto simp add: fle_def)

lemma fle_trans: "fle a b \<Longrightarrow> fle b c \<Longrightarrow> fle a c"
  by (cases a; cases b; cases c; auto simp add: fle_def)

lemma fle_Fin [simp]: "fle (Fin x) (Fin y) = (x \<le> y)"
  by (auto simp: fle_def)

section \<open>The first minimum\<close>

lemma argmin_from_bound: "mi < i \<Longrightarrow> argmin_from mp mi i xs < i + length xs"
proof (induction xs arbitrary: mp mi i)
  case Nil
  then show ?case by simp
next
  case (Cons a xs)
  have "argmin_from a i (Suc i) xs < Suc i + length xs"
    by (rule Cons.IH) simp
  moreover have "argmin_from mp mi (Suc i) xs < Suc i + length xs"
    by (rule Cons.IH) (use Cons.prems in simp)
  ultimately show ?case using Cons.prems by simp
qed

lemma np_argmin_less: "xs \<noteq> [] \<Longrightarrow> np_argmin xs < length xs"
  using argmin_from_bound [of 0 1] by (cases xs) (auto simp: np_argmin_def)

lemma argmin_from_min:
  assumes "drop i ys = xs" "NaN \<notin> set ys" "mi < i" "i \<le> length ys" "mp = ys ! mi"
    "\<forall>j<i. fle mp (ys ! j)" "\<forall>j<mi. flt mp (ys ! j)"
  shows "argmin_from mp mi i xs < length ys \<and>
         (\<forall>j<length ys. fle (ys ! argmin_from mp mi i xs) (ys ! j)) \<and>
         (\<forall>j<argmin_from mp mi i xs. flt (ys ! argmin_from mp mi i xs) (ys ! j))"
  using assms
proof (induction xs arbitrary: mp mi i)
  case Nil
  then have "i = length ys" by simp
  with Nil show ?case by simp
next
  case (Cons x xs)
  from Cons.prems(1) have il: "i < length ys"
    by (metis drop_all list.distinct(1) not_le)
  with Cons.prems(1) have x: "x = ys ! i" and dr: "drop (Suc i) ys = xs"
    by (simp_all add: Cons_nth_drop_Suc [symmetric])
  have mpn: "mp \<noteq> NaN" and xn: "x \<noteq> NaN"
    using Cons.prems il x by (auto simp: in_set_conv_nth dest: nth_mem)
  show ?case
  proof (cases "fle mp x")
    case True
    have "\<forall>j<Suc i. fle mp (ys ! j)"
      using Cons.prems(6) True x by (auto simp: less_Suc_eq)
    from Cons.IH [OF dr Cons.prems(2) _ _ Cons.prems(5) this Cons.prems(7)] Cons.prems(3) il
    show ?thesis using True mpn by simp
  next
    case False
    then have lt: "flt x mp" using not_fle_flt mpn xn by blast
    have a: "\<forall>j<Suc i. fle x (ys ! j)"
      using Cons.prems(6) lt x xn
      by (auto simp: less_Suc_eq intro: fle_refl flt_imp_fle flt_fle_trans)
    have b: "\<forall>j<i. flt x (ys ! j)"
      using Cons.prems(6) lt by (auto intro: flt_fle_trans)
    from Cons.IH [OF dr Cons.prems(2) _ _ x a b] il
    show ?thesis using False mpn by simp
  qed
qed

lemma np_argmin_min:
  assumes "xs \<noteq> []" "NaN \<notin> set xs"
  shows "np_argmin xs < length xs \<and> (\<forall>j<length xs. fle (xs ! np_argmin xs) (xs ! j)) \<and>
         (\<forall>j<np_argmin xs. flt (xs ! np_argmin xs) (xs ! j))"
proof -
  obtain x ys where xs: "xs = x # ys" using assms(1) by (cases xs) auto
  have "x \<noteq> NaN" using assms(2) xs by auto
  then have m: "\<forall>j<Suc 0. fle x (xs ! j)" by (simp add: xs fle_refl)
  have d: "drop (Suc 0) xs = ys" by (simp add: xs)
  have l: "Suc 0 \<le> length xs" by (simp add: xs)
  have e: "x = xs ! 0" by (simp add: xs)
  have f: "\<forall>j<0. flt x (xs ! j)" by simp
  have g: "np_argmin xs = argmin_from x 0 (Suc 0) ys" by (simp add: xs np_argmin_def)
  have "0 < Suc 0" by simp
  from argmin_from_min [OF d assms(2) this l e m f]
  show ?thesis unfolding g by blast
qed


section \<open>The ideal point\<close>

lemma np_minimum_props:
  "a \<noteq> NaN \<Longrightarrow> b \<noteq> NaN \<Longrightarrow>
   np_minimum a b \<noteq> NaN \<and> fle (np_minimum a b) a \<and> fle (np_minimum a b) b \<and>
   (np_minimum a b = a \<or> np_minimum a b = b)"
  by (auto simp: np_minimum_def fle_refl dest: not_fle_flt flt_imp_fle)

lemma nth_not_NaN: "NaN \<notin> set xs \<Longrightarrow> j < length xs \<Longrightarrow> xs ! j \<noteq> NaN"
  by (metis nth_mem)

lemma nth_map2: "j < length xs \<Longrightarrow> j < length ys \<Longrightarrow> map2 f xs ys ! j = f (xs ! j) (ys ! j)"
  by simp

lemma map2_min_row:
  assumes "length a = n" "length b = n" "NaN \<notin> set a" "NaN \<notin> set b"
  shows "length (map2 np_minimum a b) = n \<and> NaN \<notin> set (map2 np_minimum a b)"
proof -
  have "map2 np_minimum a b ! j \<noteq> NaN" if "j < n" for j
    using that assms np_minimum_props [of "a ! j" "b ! j"] nth_not_NaN [of a j] nth_not_NaN [of b j]
    by simp
  moreover have "length (map2 np_minimum a b) = n" using assms by simp
  ultimately show ?thesis by (metis in_set_conv_nth)
qed

lemma foldl_min_rows:
  assumes "\<forall>r \<in> set (r0 # rs). length r = n \<and> NaN \<notin> set r"
  shows "length (foldl (map2 np_minimum) r0 rs) = n \<and>
         NaN \<notin> set (foldl (map2 np_minimum) r0 rs) \<and>
         (\<forall>j<n. (\<forall>r \<in> set (r0 # rs). fle (foldl (map2 np_minimum) r0 rs ! j) (r ! j)) \<and>
                (\<exists>r \<in> set (r0 # rs). foldl (map2 np_minimum) r0 rs ! j = r ! j))"
  using assms
proof (induction rs arbitrary: r0)
  case Nil
  then show ?case by (auto simp: fle_refl nth_not_NaN)
next
  case (Cons r rs)
  let ?r1 = "map2 np_minimum r0 r"
  have r1: "length ?r1 = n \<and> NaN \<notin> set ?r1"
    using Cons.prems by (intro map2_min_row) auto
  then have "\<forall>q \<in> set (?r1 # rs). length q = n \<and> NaN \<notin> set q"
    using Cons.prems by auto
  note ih = Cons.IH [OF this]
  have step: "fle (?r1 ! j) (r0 ! j) \<and> fle (?r1 ! j) (r ! j) \<and> (?r1 ! j = r0 ! j \<or> ?r1 ! j = r ! j)"
    if "j < n" for j
    using that Cons.prems np_minimum_props [of "r0 ! j" "r ! j"] nth_not_NaN [of r0 j] nth_not_NaN [of r j]
    by simp
  show ?case
  proof (intro conjI allI impI)
    show "length (foldl (map2 np_minimum) r0 (r # rs)) = n" using ih by simp
    show "NaN \<notin> set (foldl (map2 np_minimum) r0 (r # rs))" using ih by simp
  next
    fix j assume j: "j < n"
    let ?m = "foldl (map2 np_minimum) ?r1 rs ! j"
    from ih j have le: "\<forall>q \<in> set (?r1 # rs). fle ?m (q ! j)" and ex: "\<exists>q \<in> set (?r1 # rs). ?m = q ! j"
      by blast+
    from le have m1: "fle ?m (?r1 ! j)" by simp
    show "\<forall>q \<in> set (r0 # r # rs). fle (foldl (map2 np_minimum) r0 (r # rs) ! j) (q ! j)"
      using le m1 step [OF j] by (auto intro: fle_trans)
    show "\<exists>q \<in> set (r0 # r # rs). foldl (map2 np_minimum) r0 (r # rs) ! j = q ! j"
      using ex step [OF j] by auto
  qed
qed

lemma col_min_props:
  assumes "A \<noteq> []" "\<forall>r \<in> set A. length r = n \<and> NaN \<notin> set r"
  shows "length (col_min A) = n \<and> NaN \<notin> set (col_min A) \<and>
         (\<forall>j<n. (\<forall>r \<in> set A. fle (col_min A ! j) (r ! j)) \<and> (\<exists>r \<in> set A. col_min A ! j = r ! j))"
proof -
  obtain r0 rs where A: "A = r0 # rs" using assms(1) by (cases A) auto
  show ?thesis
    using foldl_min_rows [of r0 rs n] assms(2)
    unfolding A col_min_def col_reduce_def by simp
qed

lemma do_ideal:
  "sv_ideal (fst (APDSurvival_do n_obj st pop trm)) =
     (case sv_ideal st of
        None \<Rightarrow> None
      | Some idl \<Rightarrow>
          if pop \<noteq> [] \<and> (\<forall>c \<in> set pop. length (ind_F c) = length idl)
          then Some (map2 np_minimum (col_min (map ind_F pop)) idl) else Some idl)"
  by (simp add: APDSurvival_do_def Let_def split: option.splits sum.splits prod.splits)

lemma adapt_ideal: "sv_ideal (fst (adapt st)) = sv_ideal st"
  by (simp add: adapt_def Let_def split: option.splits sum.splits)

lemma new_ideal_props:
  assumes "pop \<noteq> []" "\<forall>c \<in> set pop. length (ind_F c) = length idl \<and> NaN \<notin> set (ind_F c)"
    "NaN \<notin> set idl"
  shows "length (map2 np_minimum (col_min (map ind_F pop)) idl) = length idl \<and>
         NaN \<notin> set (map2 np_minimum (col_min (map ind_F pop)) idl) \<and>
         (\<forall>j<length idl.
            fle (map2 np_minimum (col_min (map ind_F pop)) idl ! j) (idl ! j) \<and>
            (\<forall>c \<in> set pop. fle (map2 np_minimum (col_min (map ind_F pop)) idl ! j) (ind_F c ! j)) \<and>
            (map2 np_minimum (col_min (map ind_F pop)) idl ! j = idl ! j \<or>
             (\<exists>c \<in> set pop. map2 np_minimum (col_min (map ind_F pop)) idl ! j = ind_F c ! j)))"
proof -
  let ?A = "map ind_F pop"
  have "?A \<noteq> []" "\<forall>r \<in> set ?A. length r = length idl \<and> NaN \<notin> set r"
    using assms by auto
  note cm = col_min_props [OF this]
  note row = map2_min_row [of "col_min ?A" "length idl" idl]
  have step: "fle (np_minimum (col_min ?A ! j) (idl ! j)) (idl ! j) \<and>
      fle (np_minimum (col_min ?A ! j) (idl ! j)) (col_min ?A ! j) \<and>
      (np_minimum (col_min ?A ! j) (idl ! j) = idl ! j \<or>
       np_minimum (col_min ?A ! j) (idl ! j) = col_min ?A ! j)"
    if "j < length idl" for j
    using that cm assms(3) np_minimum_props [of "col_min ?A ! j" "idl ! j"]
      nth_not_NaN [of "col_min ?A" j] nth_not_NaN [of idl j]
    by auto
  show ?thesis
  proof (intro conjI allI impI ballI)
    show "length (map2 np_minimum (col_min ?A) idl) = length idl" using cm by simp
    show "NaN \<notin> set (map2 np_minimum (col_min ?A) idl)" using row cm assms(3) by simp
  next
    fix j assume j: "j < length idl"
    then have e: "map2 np_minimum (col_min ?A) idl ! j = np_minimum (col_min ?A ! j) (idl ! j)"
      using cm by simp
    show "fle (map2 np_minimum (col_min ?A) idl ! j) (idl ! j)"
      unfolding e using step [OF j] by blast
    show "map2 np_minimum (col_min ?A) idl ! j = idl ! j \<or>
          (\<exists>c \<in> set pop. map2 np_minimum (col_min ?A) idl ! j = ind_F c ! j)"
      unfolding e using step [OF j] cm j by auto
    fix c assume "c \<in> set pop"
    then have "fle (col_min ?A ! j) (ind_F c ! j)" using cm j by auto
    then show "fle (map2 np_minimum (col_min ?A) idl ! j) (ind_F c ! j)"
      unfolding e using step [OF j] by (blast intro: fle_trans)
  qed
qed


lemma run_call_ideal:
  assumes "sv_ideal st = Some idl" "NaN \<notin> set idl" "no_NaN_call c"
  shows "\<exists>idl'. sv_ideal (run_call n_obj st c) = Some idl' \<and> length idl' = length idl \<and>
           NaN \<notin> set idl' \<and> (\<forall>j<length idl. fle (idl' ! j) (idl ! j))"
proof (cases c)
  case Adapt
  then show ?thesis using assms by (auto simp: adapt_ideal fle_refl nth_not_NaN)
next
  case (Select pop trm)
  show ?thesis
  proof (cases "pop \<noteq> [] \<and> (\<forall>c \<in> set pop. length (ind_F c) = length idl)")
    case True
    then have "pop \<noteq> []"
      and "\<forall>c \<in> set pop. length (ind_F c) = length idl \<and> NaN \<notin> set (ind_F c)"
      using assms(3) Select by (auto simp: list_all_iff)
    note p = new_ideal_props [OF this assms(2)]
    have "sv_ideal (run_call n_obj st c) = Some (map2 np_minimum (col_min (map ind_F pop)) idl)"
      using True assms(1) Select by (simp add: do_ideal)
    with p show ?thesis by blast
  next
    case False
    then show ?thesis
      using assms Select by (auto simp: do_ideal fle_refl nth_not_NaN)
  qed
qed

lemma run_calls_ideal:
  assumes "sv_ideal st = Some idl" "NaN \<notin> set idl" "list_all no_NaN_call calls"
  shows "\<exists>idl'. sv_ideal (run_calls n_obj st calls) = Some idl' \<and> length idl' = length idl \<and>
           NaN \<notin> set idl' \<and> (\<forall>j<length idl. fle (idl' ! j) (idl ! j))"
  using assms
proof (induction calls arbitrary: st idl)
  case Nil
  then show ?case by (auto simp: run_calls_def fle_refl nth_not_NaN)
next
  case (Cons c calls)
  from Cons.prems have "no_NaN_call c" and rest: "list_all no_NaN_call calls" by simp_all
  from run_call_ideal [OF Cons.prems(1,2) this(1), of n_obj]
  obtain idl1 where i1: "sv_ideal (run_call n_obj st c) = Some idl1" "length idl1 = length idl"
    "NaN \<notin> set idl1" "\<forall>j<length idl. fle (idl1 ! j) (idl ! j)"
    by blast
  from Cons.IH [OF i1(1) i1(3) rest]
  obtain idl2 where i2: "sv_ideal (run_calls n_obj (run_call n_obj st c) calls) = Some idl2"
    "length idl2 = length idl1" "NaN \<notin> set idl2" "\<forall>j<length idl1. fle (idl2 ! j) (idl1 ! j)"
    by blast
  have "\<forall>j<length idl. fle (idl2 ! j) (idl ! j)"
    using i1(2,4) i2(4) by (auto intro: fle_trans)
  then show ?case using i2 i1(2) by (simp add: run_calls_def)
qed

section \<open>The niches\<close>

lemma n2i_fold_length:
  "length (foldl (\<lambda>acc (k, i). acc[i := acc ! i @ [k]]) acc xs) = length acc"
  by (induction xs arbitrary: acc) (auto split: prod.splits)

lemma n2i_fold_nth:
  assumes "\<forall>(k, i) \<in> set xs. i < length acc" "j < length acc"
  shows "foldl (\<lambda>acc (k, i). acc[i := acc ! i @ [k]]) acc xs ! j =
         acc ! j @ map fst (filter (\<lambda>(k, i). i = j) xs)"
  using assms
proof (induction xs arbitrary: acc)
  case Nil
  then show ?case by simp
next
  case (Cons x xs)
  obtain k i where x: "x = (k, i)" by (cases x)
  let ?acc = "acc[i := acc ! i @ [k]]"
  have "\<forall>(k, i) \<in> set xs. i < length ?acc" "j < length ?acc"
    using Cons.prems by auto
  from Cons.IH [OF this] have
    "foldl (\<lambda>acc (k, i). acc[i := acc ! i @ [k]]) ?acc xs ! j =
       ?acc ! j @ map fst (filter (\<lambda>(k, i). i = j) xs)" .
  moreover have "?acc ! j = (if i = j then acc ! j @ [k] else acc ! j)"
    using Cons.prems(2) by (auto simp: nth_list_update)
  ultimately show ?case by (simp add: x)
qed

lemma filter_zip_map:
  "map fst (filter (\<lambda>(k, i). P i) (zip ks (map f ks))) = filter (\<lambda>k. P (f k)) ks"
  by (induction ks) auto

lemma enumerate_filter:
  "map fst (filter (\<lambda>(k, i). i = j) (enumerate 0 xs)) = filter (\<lambda>k. xs ! k = j) [0..<length xs]"
proof -
  have "enumerate 0 xs = zip [0..<length xs] (map (\<lambda>k. xs ! k) [0..<length xs])"
    by (simp add: enumerate_eq_zip map_nth)
  then show ?thesis using filter_zip_map [of "\<lambda>i. i = j" "[0..<length xs]" "\<lambda>k. xs ! k"] by simp
qed

lemma niches_to_ind_length: "length (niches_to_ind N niches) = N"
  by (simp add: niches_to_ind_def n2i_fold_length)

lemma niches_to_ind_nth:
  assumes "\<forall>i<length niches. niches ! i < N" "k < N"
  shows "niches_to_ind N niches ! k = assigned_to niches k"
proof -
  have "\<forall>(j, i) \<in> set (enumerate 0 niches). i < length (replicate N ([]::nat list))"
    using assms(1) by (auto simp: enumerate_eq_zip in_set_zip)
  from n2i_fold_nth [OF this, of k] assms(2) show ?thesis
    by (simp add: niches_to_ind_def enumerate_filter assigned_to_def)
qed

lemma assigned_to_set: "set (assigned_to niches k) = {i. i < length niches \<and> niches ! i = k}"
  by (auto simp: assigned_to_def)

lemma assigned_to_distinct: "distinct (assigned_to niches k)"
  by (simp add: assigned_to_def)

section \<open>The loop body\<close>

lemma map2_same: "map2 f xs (map g xs) = map (\<lambda>x. f x (g x)) xs"
  by (induction xs) auto

lemma foldl_zip3:
  "foldl (\<lambda>p (i, t, a). h p i t a) p0 (zip xs (zip (map f xs) (map g xs))) =
   foldl (\<lambda>p i. h p i (f i) (g i)) p0 xs"
  by (induction xs arbitrary: p0) auto

lemma niche_body_eq:
  "niche_body n_obj pw gam acute d2i n2i k (pop, sv) =
     (if n2i ! k = [] then (pop, sv)
      else (let pop1 = foldl (\<lambda>p i. p[i := mark n_obj pw gam acute d2i k i (p ! i)]) pop (n2i ! k);
                s = niche_survivor n_obj pw gam acute d2i n2i k
            in (pop1[s := (pop1 ! s)\<lparr>ind_opt := Some True\<rparr>], sv @ [s])))"
proof -
  let ?as = "n2i ! k"
  let ?M = "if n_obj > 2 then real n_obj else 1"
  have apd: "map2 (\<lambda>i p. fmul (d2i ! i) (fadd (Fin 1) p)) ?as
        (map (\<lambda>t. fmul (Fin (?M * pw)) (fdiv t (gam ! k))) (map (\<lambda>i. acute ! i ! k) ?as)) =
      map (niche_apd n_obj pw gam acute d2i k) ?as"
    by (simp add: map2_same niche_apd_def apd_formula_def o_def)
  show ?thesis
    unfolding niche_body_def set_attrs_def Let_def prod.case apd
    unfolding foldl_zip3 [of "\<lambda>p i t a. p[i := (p ! i)\<lparr>ind_theta := Some t, ind_apd := Some a,
                             ind_niche := Some k, ind_opt := Some False\<rparr>]"]
    by (simp add: mark_def niche_survivor_def)
qed

lemma mark_fold_length: "length (foldl (\<lambda>p i. p[i := g i (p ! i)]) pop xs) = length pop"
  by (induction xs arbitrary: pop) auto

lemma mark_fold_nth:
  assumes "distinct xs" "j < length pop"
  shows "foldl (\<lambda>p i. p[i := g i (p ! i)]) pop xs ! j = (if j \<in> set xs then g j (pop ! j) else pop ! j)"
  using assms
proof (induction xs arbitrary: pop)
  case Nil
  then show ?case by simp
next
  case (Cons x xs)
  let ?p = "pop[x := g x (pop ! x)]"
  have "distinct xs" "j < length ?p" using Cons.prems by auto
  from Cons.IH [OF this]
  have "foldl (\<lambda>p i. p[i := g i (p ! i)]) ?p xs ! j = (if j \<in> set xs then g j (?p ! j) else ?p ! j)" .
  moreover have "?p ! j = (if j = x then g x (pop ! x) else pop ! j)"
    using Cons.prems(2) by (auto simp: nth_list_update)
  ultimately show ?case using Cons.prems(1) by auto
qed

lemma niche_survivor_mem:
  "n2i ! k \<noteq> [] \<Longrightarrow> niche_survivor n_obj pw gam acute d2i n2i k \<in> set (n2i ! k)"
  using np_argmin_less [of "map (niche_apd n_obj pw gam acute d2i k) (n2i ! k)"]
  by (simp add: niche_survivor_def)

lemma niche_body_length:
  "length (fst (niche_body n_obj pw gam acute d2i n2i k (pop, sv))) = length pop"
  by (simp add: niche_body_eq Let_def mark_fold_length)

lemma niche_body_snd:
  "snd (niche_body n_obj pw gam acute d2i n2i k (pop, sv)) =
     sv @ (if n2i ! k = [] then [] else [niche_survivor n_obj pw gam acute d2i n2i k])"
  by (simp add: niche_body_eq Let_def)

lemma niche_body_nth:
  assumes "distinct (n2i ! k)" "j < length pop"
  shows "fst (niche_body n_obj pw gam acute d2i n2i k (pop, sv)) ! j =
           (if j \<in> set (n2i ! k) then final n_obj pw gam acute d2i n2i k j (pop ! j) else pop ! j)"
proof (cases "n2i ! k = []")
  case True
  then show ?thesis by (simp add: niche_body_eq)
next
  case False
  let ?s = "niche_survivor n_obj pw gam acute d2i n2i k"
  let ?p1 = "foldl (\<lambda>p i. p[i := mark n_obj pw gam acute d2i k i (p ! i)]) pop (n2i ! k)"
  have s: "?s \<in> set (n2i ! k)" using False by (rule niche_survivor_mem)
  have l: "length ?p1 = length pop" by (rule mark_fold_length)
  have n: "?p1 ! j = (if j \<in> set (n2i ! k) then mark n_obj pw gam acute d2i k j (pop ! j) else pop ! j)"
    using assms by (rule mark_fold_nth)
  have "fst (niche_body n_obj pw gam acute d2i n2i k (pop, sv)) ! j =
      (?p1[?s := (?p1 ! ?s)\<lparr>ind_opt := Some True\<rparr>]) ! j"
    using False by (simp add: niche_body_eq Let_def)
  also have "\<dots> = (if j = ?s then (?p1 ! j)\<lparr>ind_opt := Some True\<rparr> else ?p1 ! j)"
    using assms(2) l by (auto simp: nth_list_update)
  also have "\<dots> = (if j \<in> set (n2i ! k) then final n_obj pw gam acute d2i n2i k j (pop ! j) else pop ! j)"
    using s n by (auto simp: final_def mark_def)
  finally show ?thesis .
qed

lemma loop_length:
  "length (fst (foldl (\<lambda>ps k. niche_body n_obj pw gam acute d2i n2i k ps) (pop, sv) ks)) = length pop"
proof (induction ks arbitrary: pop sv)
  case Nil
  then show ?case by simp
next
  case (Cons k ks)
  obtain p1 s1 where st: "niche_body n_obj pw gam acute d2i n2i k (pop, sv) = (p1, s1)"
    by (cases "niche_body n_obj pw gam acute d2i n2i k (pop, sv)")
  then have "length p1 = length pop"
    using niche_body_length [of n_obj pw gam acute d2i n2i k pop sv] by simp
  then show ?case using Cons.IH [of p1 s1] by (simp add: st)
qed

lemma loop_survivors:
  "snd (foldl (\<lambda>ps k. niche_body n_obj pw gam acute d2i n2i k ps) (pop, sv) ks) =
     sv @ map (niche_survivor n_obj pw gam acute d2i n2i) (filter (\<lambda>k. n2i ! k \<noteq> []) ks)"
proof (induction ks arbitrary: pop sv)
  case Nil
  then show ?case by simp
next
  case (Cons k ks)
  obtain p1 s1 where st: "niche_body n_obj pw gam acute d2i n2i k (pop, sv) = (p1, s1)"
    by (cases "niche_body n_obj pw gam acute d2i n2i k (pop, sv)")
  then have "s1 = sv @ (if n2i ! k = [] then [] else [niche_survivor n_obj pw gam acute d2i n2i k])"
    using niche_body_snd [of n_obj pw gam acute d2i n2i k pop sv] by simp
  then show ?case using Cons.IH [of p1 s1] by (simp add: st)
qed

lemma loop_nth:
  assumes "distinct ks" "\<forall>k \<in> set ks. n2i ! k = assigned_to niches k" "length niches = length pop"
    "j < length pop"
  shows "fst (foldl (\<lambda>ps k. niche_body n_obj pw gam acute d2i n2i k ps) (pop, sv) ks) ! j =
           (if niches ! j \<in> set ks then final n_obj pw gam acute d2i n2i (niches ! j) j (pop ! j)
            else pop ! j)"
  using assms
proof (induction ks arbitrary: pop sv)
  case Nil
  then show ?case by simp
next
  case (Cons k ks)
  obtain p1 s1 where st: "niche_body n_obj pw gam acute d2i n2i k (pop, sv) = (p1, s1)"
    by (cases "niche_body n_obj pw gam acute d2i n2i k (pop, sv)")
  have k: "n2i ! k = assigned_to niches k" using Cons.prems(2) by simp
  have lp: "length p1 = length pop"
    using niche_body_length [of n_obj pw gam acute d2i n2i k pop sv] st by simp
  have "distinct (n2i ! k)" by (simp add: k assigned_to_distinct)
  from niche_body_nth [OF this Cons.prems(4), of n_obj pw gam acute d2i sv]
  have p1: "p1 ! j = (if niches ! j = k then final n_obj pw gam acute d2i n2i k j (pop ! j) else pop ! j)"
    using Cons.prems(3,4) by (simp add: st k assigned_to_set)
  have "fst (foldl (\<lambda>ps k. niche_body n_obj pw gam acute d2i n2i k ps) (p1, s1) ks) ! j =
      (if niches ! j \<in> set ks then final n_obj pw gam acute d2i n2i (niches ! j) j (p1 ! j) else p1 ! j)"
    using Cons.prems lp by (intro Cons.IH) auto
  then show ?case using p1 Cons.prems(1) by (auto simp: st)
qed

section \<open>Selection unfolded\<close>

lemma niche_step_Inr:
  assumes "py_pow progress alpha = Inr pw" "n2i ! k \<noteq> [] \<longrightarrow> k < length gam"
  shows "niche_step n_obj progress alpha gam acute d2i n2i k ps =
         Inr (niche_body n_obj pw gam acute d2i n2i k ps)"
  using assms by (cases ps) (auto simp: niche_step_def niche_body_def Let_def)

lemma niche_step_guards:
  assumes "niche_step n_obj progress alpha gam acute d2i n2i k ps = Inr ps'"
  shows "n2i ! k \<noteq> [] \<longrightarrow> k < length gam \<and> (\<exists>pw. py_pow progress alpha = Inr pw)"
  using assms by (cases ps) (auto simp: niche_step_def Let_def split: if_splits sum.splits)

lemma for_each_Inr:
  assumes "py_pow progress alpha = Inr pw" "\<forall>k \<in> set ks. n2i ! k \<noteq> [] \<longrightarrow> k < length gam"
  shows "for_each (niche_step n_obj progress alpha gam acute d2i n2i) ks s =
         Inr (foldl (\<lambda>ps k. niche_body n_obj pw gam acute d2i n2i k ps) s ks)"
  using assms(2)
proof (induction ks arbitrary: s)
  case Nil
  then show ?case by simp
next
  case (Cons k ks)
  then have "n2i ! k \<noteq> [] \<longrightarrow> k < length gam" by simp
  from niche_step_Inr [OF assms(1) this] Cons show ?case by simp
qed

lemma for_each_guards:
  assumes "for_each (niche_step n_obj progress alpha gam acute d2i n2i) ks s = Inr s'"
  shows "\<forall>k \<in> set ks. n2i ! k \<noteq> [] \<longrightarrow> k < length gam \<and> (\<exists>pw. py_pow progress alpha = Inr pw)"
  using assms
proof (induction ks arbitrary: s)
  case Nil
  then show ?case by simp
next
  case (Cons k ks)
  from Cons.prems obtain s1 where s1: "niche_step n_obj progress alpha gam acute d2i n2i k s = Inr s1"
    and rest: "for_each (niche_step n_obj progress alpha gam acute d2i n2i) ks s1 = Inr s'"
    by (auto split: sum.splits)
  from niche_step_guards [OF s1] Cons.IH [OF rest] show ?case by simp
qed

lemma do_expand:
  "APDSurvival_do n_obj st pop trm =
     (if pop = [] then (st, Inl ValueError)
      else case sv_ideal st of
        None \<Rightarrow> (st, Inl TypeError)
      | Some idl \<Rightarrow>
          if \<exists>c \<in> set pop. length (ind_F c) \<noteq> length idl then (st, Inl ValueError)
          else if \<exists>v \<in> set (sv_V st). length v \<noteq> length idl
            then (st\<lparr>sv_ideal := Some (new_ideal idl pop)\<rparr>, Inl ValueError)
          else if sv_V st = [] then (st\<lparr>sv_ideal := Some (new_ideal idl pop)\<rparr>, Inl ValueError)
          else
            (case for_each (niche_step n_obj (perc trm) (sv_alpha st) (sv_gamma st)
                              (pop_angle idl (sv_V st) pop) (pop_dist idl pop)
                              (niches_to_ind (length (sv_V st)) (pop_niches idl (sv_V st) pop)))
                    [0..<length (sv_V st)] (pop, []) of
               Inl e \<Rightarrow> (st\<lparr>sv_ideal := Some (new_ideal idl pop)\<rparr>, Inl e)
             | Inr (pop', survivors) \<Rightarrow>
                 (st\<lparr>sv_ideal := Some (new_ideal idl pop),
                     sv_niches := Some (niches_to_ind (length (sv_V st)) (pop_niches idl (sv_V st) pop)),
                     sv_nadir := Some (col_max (map ind_F (map (\<lambda>s. pop' ! s) survivors)))\<rparr>,
                  Inr (pop', map (\<lambda>s. pop' ! s) survivors))))"
  by (simp add: APDSurvival_do_def Let_def new_ideal_def pop_dist_def pop_angle_def pop_niches_def
      split: option.splits sum.splits prod.splits)

lemma pop_niches_length: "length (pop_niches idl V pop) = length pop"
  by (simp add: pop_niches_def pop_angle_def acute_angle_def F_prime_def pop_dist_def
      dist_to_ideal_def translate_def)

lemma pop_angle_row: "i < length pop \<Longrightarrow> length (pop_angle idl V pop ! i) = length V"
  by (simp add: pop_angle_def acute_angle_def F_prime_def pop_dist_def
      dist_to_ideal_def translate_def)

lemma pop_niches_less:
  assumes "V \<noteq> []" "i < length pop"
  shows "pop_niches idl V pop ! i < length V"
proof -
  have "length (pop_angle idl V pop) = length pop"
    by (simp add: pop_angle_def acute_angle_def F_prime_def pop_dist_def
      dist_to_ideal_def translate_def)
  then have "pop_niches idl V pop ! i = np_argmin (pop_angle idl V pop ! i)"
    using assms(2) by (simp add: pop_niches_def)
  moreover have "pop_angle idl V pop ! i \<noteq> []"
    using pop_angle_row [OF assms(2), of idl V] assms(1) by auto
  ultimately show ?thesis
    using np_argmin_less [of "pop_angle idl V pop ! i"] pop_angle_row [OF assms(2), of idl V] by simp
qed

lemma n2i_assigned:
  assumes "V \<noteq> []" "k < length V"
  shows "niches_to_ind (length V) (pop_niches idl V pop) ! k = assigned_to (pop_niches idl V pop) k"
proof (rule niches_to_ind_nth)
  show "\<forall>i<length (pop_niches idl V pop). pop_niches idl V pop ! i < length V"
    using pop_niches_less [OF assms(1)] by (simp add: pop_niches_length)
  show "k < length V" by fact
qed

lemma n2i_map:
  assumes "V \<noteq> []"
  shows "niches_to_ind (length V) (pop_niches idl V pop) =
         map (assigned_to (pop_niches idl V pop)) [0..<length V]"
  by (rule nth_equalityI) (simp_all add: niches_to_ind_length n2i_assigned [OF assms])

lemma do_unfold:
  assumes "pop \<noteq> []" "sv_ideal st = Some idl" "\<forall>c \<in> set pop. length (ind_F c) = length idl"
    "\<forall>v \<in> set (sv_V st). length v = length idl" "sv_V st \<noteq> []"
    "py_pow (perc trm) (sv_alpha st) = Inr pw"
    "\<forall>k<length (sv_V st). assigned_to (pop_niches idl (sv_V st) pop) k \<noteq> [] \<longrightarrow>
        k < length (sv_gamma st)"
  shows "APDSurvival_do n_obj st pop trm =
     (st\<lparr>sv_ideal := Some (new_ideal idl pop),
         sv_niches := Some (niches_to_ind (length (sv_V st)) (pop_niches idl (sv_V st) pop)),
         sv_nadir := Some (col_max (map ind_F (map (\<lambda>s. fst (niche_loop n_obj pw st idl pop) ! s)
                                                  (snd (niche_loop n_obj pw st idl pop)))))\<rparr>,
      Inr (fst (niche_loop n_obj pw st idl pop),
           map (\<lambda>s. fst (niche_loop n_obj pw st idl pop) ! s) (snd (niche_loop n_obj pw st idl pop))))"
proof -
  let ?n2i = "niches_to_ind (length (sv_V st)) (pop_niches idl (sv_V st) pop)"
  have "\<forall>k \<in> set [0..<length (sv_V st)]. ?n2i ! k \<noteq> [] \<longrightarrow> k < length (sv_gamma st)"
    using assms(7) n2i_assigned [OF assms(5)] by simp
  from for_each_Inr [OF assms(6) this]
  have "for_each (niche_step n_obj (perc trm) (sv_alpha st) (sv_gamma st)
                    (pop_angle idl (sv_V st) pop) (pop_dist idl pop) ?n2i)
          [0..<length (sv_V st)] (pop, []) = Inr (niche_loop n_obj pw st idl pop)"
    by (simp add: niche_loop_def)
  then show ?thesis
    using assms(1-5) by (simp add: do_expand split: prod.splits)
qed

lemma do_Inr_guards:
  assumes "APDSurvival_do n_obj st pop trm = (st', Inr r)"
  shows "pop \<noteq> [] \<and>
         (\<exists>idl. sv_ideal st = Some idl \<and> (\<forall>c \<in> set pop. length (ind_F c) = length idl) \<and>
                (\<forall>v \<in> set (sv_V st). length v = length idl) \<and>
                (\<forall>k<length (sv_V st). assigned_to (pop_niches idl (sv_V st) pop) k \<noteq> [] \<longrightarrow>
                    k < length (sv_gamma st))) \<and>
         sv_V st \<noteq> [] \<and> (\<exists>pw. py_pow (perc trm) (sv_alpha st) = Inr pw)"
proof -
  from assms have ne: "pop \<noteq> []" by (auto simp: do_expand split: if_splits)
  from assms ne obtain idl where idl: "sv_ideal st = Some idl"
    by (auto simp: do_expand split: option.splits)
  from assms ne idl have l: "\<forall>c \<in> set pop. length (ind_F c) = length idl"
    and w: "\<forall>v \<in> set (sv_V st). length v = length idl" and v: "sv_V st \<noteq> []"
    by (auto simp: do_expand split: if_splits)
  let ?ni = "pop_niches idl (sv_V st) pop"
  let ?n2i = "niches_to_ind (length (sv_V st)) ?ni"
  from assms ne idl l w v obtain s' where
    "for_each (niche_step n_obj (perc trm) (sv_alpha st) (sv_gamma st)
                 (pop_angle idl (sv_V st) pop) (pop_dist idl pop) ?n2i)
       [0..<length (sv_V st)] (pop, []) = Inr s'"
    by (auto simp: do_expand split: sum.splits)
  note g = for_each_guards [OF this]
  have gam: "\<forall>k<length (sv_V st). assigned_to ?ni k \<noteq> [] \<longrightarrow> k < length (sv_gamma st)"
    using g n2i_assigned [OF v] by simp
  have z: "0 < length pop" using ne by simp
  have "?ni ! 0 < length (sv_V st)" using pop_niches_less [OF v z] .
  moreover have "0 \<in> set (assigned_to ?ni (?ni ! 0))"
    using z by (simp add: assigned_to_set pop_niches_length)
  then have "assigned_to ?ni (?ni ! 0) \<noteq> []" by auto
  ultimately have "\<exists>pw. py_pow (perc trm) (sv_alpha st) = Inr pw"
    using g n2i_assigned [OF v, of "?ni ! 0"] by auto
  with ne idl l w gam v show ?thesis by blast
qed

lemma niche_loop_length: "length (fst (niche_loop n_obj pw st idl pop)) = length pop"
  by (simp add: niche_loop_def loop_length)

lemma niche_loop_snd:
  assumes "sv_V st \<noteq> []"
  shows "snd (niche_loop n_obj pw st idl pop) =
     map (niche_survivor n_obj pw (sv_gamma st) (pop_angle idl (sv_V st) pop) (pop_dist idl pop)
            (map (assigned_to (pop_niches idl (sv_V st) pop)) [0..<length (sv_V st)]))
       (filter (\<lambda>k. assigned_to (pop_niches idl (sv_V st) pop) k \<noteq> []) [0..<length (sv_V st)])"
proof -
  have "filter (\<lambda>k. map (assigned_to (pop_niches idl (sv_V st) pop)) [0..<length (sv_V st)] ! k \<noteq> [])
          [0..<length (sv_V st)] =
        filter (\<lambda>k. assigned_to (pop_niches idl (sv_V st) pop) k \<noteq> []) [0..<length (sv_V st)]"
    by (rule filter_cong) auto
  then show ?thesis
    by (simp add: niche_loop_def loop_survivors n2i_map [OF assms])
qed

lemma niche_loop_nth:
  assumes "sv_V st \<noteq> []" "j < length pop"
  shows "fst (niche_loop n_obj pw st idl pop) ! j =
     final n_obj pw (sv_gamma st) (pop_angle idl (sv_V st) pop) (pop_dist idl pop)
       (map (assigned_to (pop_niches idl (sv_V st) pop)) [0..<length (sv_V st)])
       (pop_niches idl (sv_V st) pop ! j) j (pop ! j)"
proof -
  let ?n2i = "map (assigned_to (pop_niches idl (sv_V st) pop)) [0..<length (sv_V st)]"
  have a: "distinct [0..<length (sv_V st)]" by simp
  have b: "\<forall>k \<in> set [0..<length (sv_V st)]. ?n2i ! k = assigned_to (pop_niches idl (sv_V st) pop) k"
    by simp
  have c: "length (pop_niches idl (sv_V st) pop) = length pop" by (rule pop_niches_length)
  have "pop_niches idl (sv_V st) pop ! j \<in> set [0..<length (sv_V st)]"
    using pop_niches_less [OF assms] by simp
  with loop_nth [OF a b c assms(2), of n_obj pw "sv_gamma st" "pop_angle idl (sv_V st) pop" "pop_dist idl pop" "[]"]
  show ?thesis by (simp add: niche_loop_def n2i_map [OF assms(1)])
qed

lemma assigned_nonempty:
  "length niches = n \<Longrightarrow> (assigned_to niches k \<noteq> []) = (\<exists>i<n. niches ! i = k)"
  using assigned_to_set [of niches k] by (auto simp: set_empty [symmetric] simp del: set_empty)

lemma filter_upt_card: "length (filter P [0..<n]) = card {k. k < n \<and> P k}"
proof -
  have d: "distinct (filter P [0..<n])" by simp
  have s: "set (filter P [0..<n]) = {k. k < n \<and> P k}" by auto
  show ?thesis using distinct_card [OF d] unfolding s by simp
qed






section \<open>Finite vectors\<close>






section \<open>Sorting\<close>






section \<open>The Cauchy-Schwarz inequality on lists\<close>




section \<open>Neighbour angles of unit directions\<close>







section \<open>Angles of finite populations\<close>

















section \<open>The example engine, evaluated\<close>

lemmas eval_defs =
  col_min_def col_reduce_def np_minimum_def fle_def translate_def fsub_def dist_to_ideal_def
  linalg_norm_def fsum_def tiny_def F_prime_def acute_angle_def dot_def np_argmin_def
  niches_to_ind_def py_pow_def niche_step_def set_attrs_def col_max_def np_maximum_def Let_def
  calc_V_def calc_gamma_def neg_gram_row_def np_sort_def sort_le_def n_dim_of_def
  power2_eq_square

lemma ex_init: "APDSurvival_init ex_ref_dirs 2 = Inr ex_state"
  using pi_gt_zero pi_ge_two
  by (simp add: APDSurvival_init_def ex_state_def ex_ref_dirs_def eval_defs)

lemma ex_do:
  "APDSurvival_do 2 ex_state ex_pop ex_term =
     (ex_state_after, Inr ([ex_survivor, ex_other], [ex_survivor]))"
  using pi_gt_zero pi_ge_two
  by (simp add: APDSurvival_do_def ex_state_def ex_pop_def ex_ind_def ex_ref_dirs_def
      ex_term_def ex_state_after_def ex_survivor_def ex_other_def eval_defs)

lemma ex_niches: "pop_niches [PInf, PInf] ex_ref_dirs ex_pop = [0, 0]"
  using pi_gt_zero pi_ge_two
  by (simp add: pop_niches_def pop_angle_def pop_dist_def new_ideal_def ex_pop_def ex_ind_def
      ex_ref_dirs_def eval_defs)





section \<open>Claims about the state of the engine\<close>

text \<open>
  C7. Adaptation before any selection is a no-op. \<open>adapt\<close> returns its state unchanged,
  so in particular the unit directions \<open>sv_V\<close> and the neighbour angles \<open>sv_gamma\<close>,
  whenever the ideal or the nadir estimate is None; and the engine that the constructor
  returns is in that case, its nadir estimate being None until the first selection.
\<close>

theorem adapt_without_estimates_is_noop:
  "(sv_ideal st = None \<or> sv_nadir st = None \<longrightarrow>
      adapt st = (st, None) \<and> sv_V (fst (adapt st)) = sv_V st \<and>
      sv_gamma (fst (adapt st)) = sv_gamma st) \<and>
   (APDSurvival_init ref_dirs alpha = Inr st' \<longrightarrow>
      sv_nadir st' = None \<and> adapt st' = (st', None))"
  by (auto simp: adapt_def APDSurvival_init_def split: option.splits sum.splits)

theorem adapt_without_estimates_is_noop_witness:
  "APDSurvival_init ex_ref_dirs 2 = Inr ex_state \<and> sv_nadir ex_state = None \<and>
   adapt ex_state = (ex_state, None) \<and> sv_V (fst (adapt ex_state)) = ex_ref_dirs \<and>
   sv_gamma (fst (adapt ex_state)) = [Fin (pi / 2), Fin (pi / 2)]"
  using adapt_without_estimates_is_noop [of ex_state ex_ref_dirs 2 ex_state] ex_init
  by (simp add: ex_state_def)

text \<open>
  C10. Selection does not touch the geometry: whatever it is called with and however it
  ends (survivors or an exception), the state it leaves has the same unit directions, the
  same neighbour angles, the same original reference directions and the same exponent
  \<open>alpha\<close>. Of the operations of the engine only \<open>adapt\<close> assigns \<open>sv_V\<close> and
  \<open>sv_gamma\<close>.
\<close>

theorem selection_keeps_geometry:
  "sv_V (fst (APDSurvival_do n_obj st pop trm)) = sv_V st \<and>
   sv_gamma (fst (APDSurvival_do n_obj st pop trm)) = sv_gamma st \<and>
   sv_ref_dirs (fst (APDSurvival_do n_obj st pop trm)) = sv_ref_dirs st \<and>
   sv_alpha (fst (APDSurvival_do n_obj st pop trm)) = sv_alpha st"
  by (simp add: APDSurvival_do_def Let_def split: option.splits sum.splits prod.splits)

theorem selection_keeps_geometry_witness:
  "sv_V (fst (APDSurvival_do 2 ex_state ex_pop ex_term)) = ex_ref_dirs \<and>
   sv_gamma (fst (APDSurvival_do 2 ex_state ex_pop ex_term)) = [Fin (pi / 2), Fin (pi / 2)] \<and>
   sv_ref_dirs (fst (APDSurvival_do 2 ex_state ex_pop ex_term)) = ex_ref_dirs \<and>
   sv_alpha (fst (APDSurvival_do 2 ex_state ex_pop ex_term)) = 2"
  using selection_keeps_geometry [of 2 ex_state ex_pop ex_term]
  by (simp add: ex_state_def)



section \<open>Claims about the optimizer shell\<close>





text \<open>
  C8. \<^verbatim>\<open>_set_optimum\<close>, for any feasibility test \<open>has_feasible\<close>. When the test
  fails on the population, the optimum is the one individual whose constraint violation is minimal and
  strictly below that of every individual before it (the population is not empty and no
  constraint violation is NaN). When the test succeeds, the optimum is the whole
  population.
\<close>

theorem set_optimum_reports_least_infeasible_or_population:

  "(\<not> has_feasible (rv_pop self) \<and> rv_pop self \<noteq> [] \<and> NaN \<notin> set (map ind_CV (rv_pop self)) \<longrightarrow>
      (\<exists>i<length (rv_pop self).
         RVEA_set_optimum has_feasible self = Inr (self\<lparr>rv_opt := Some [rv_pop self ! i]\<rparr>) \<and>
         (\<forall>j<length (rv_pop self). fle (ind_CV (rv_pop self ! i)) (ind_CV (rv_pop self ! j))) \<and>
         (\<forall>j<i. flt (ind_CV (rv_pop self ! i)) (ind_CV (rv_pop self ! j))))) \<and>
   (has_feasible (rv_pop self) \<longrightarrow>
      RVEA_set_optimum has_feasible self = Inr (self\<lparr>rv_opt := Some (rv_pop self)\<rparr>))"
proof (intro conjI impI)
  assume a: "\<not> has_feasible (rv_pop self) \<and> rv_pop self \<noteq> [] \<and> NaN \<notin> set (map ind_CV (rv_pop self))"
  let ?cv = "map ind_CV (rv_pop self)"
  from a have ne: "?cv \<noteq> []" by simp
  from a have nn: "NaN \<notin> set ?cv" by simp
  note m = np_argmin_min [OF ne nn]
  show "\<exists>i<length (rv_pop self).
         RVEA_set_optimum has_feasible self = Inr (self\<lparr>rv_opt := Some [rv_pop self ! i]\<rparr>) \<and>
         (\<forall>j<length (rv_pop self). fle (ind_CV (rv_pop self ! i)) (ind_CV (rv_pop self ! j))) \<and>
         (\<forall>j<i. flt (ind_CV (rv_pop self ! i)) (ind_CV (rv_pop self ! j)))"
  proof (intro exI [of _ "np_argmin ?cv"] conjI allI impI)
    show "np_argmin ?cv < length (rv_pop self)" using m by simp
    show "RVEA_set_optimum has_feasible self = Inr (self\<lparr>rv_opt := Some [rv_pop self ! np_argmin ?cv]\<rparr>)"
      using a by (simp add: RVEA_set_optimum_def)
    show "fle (ind_CV (rv_pop self ! np_argmin ?cv)) (ind_CV (rv_pop self ! j))"
      if "j < length (rv_pop self)" for j
      using m that by auto
    show "flt (ind_CV (rv_pop self ! np_argmin ?cv)) (ind_CV (rv_pop self ! j))"
      if "j < np_argmin ?cv" for j
      using m that by auto
  qed
next
  assume "has_feasible (rv_pop self)"
  then show "RVEA_set_optimum has_feasible self = Inr (self\<lparr>rv_opt := Some (rv_pop self)\<rparr>)"
    by (simp add: RVEA_set_optimum_def)
qed

theorem set_optimum_reports_least_infeasible_or_population_witness:
  "\<not> has_feasible_spec ex_infeasible \<and> ex_infeasible \<noteq> [] \<and>
   NaN \<notin> set (map ind_CV ex_infeasible) \<and>
   RVEA_set_optimum has_feasible_spec (ex_shell\<lparr>rv_pop := ex_infeasible\<rparr>) =
     Inr (ex_shell\<lparr>rv_pop := ex_infeasible, rv_opt := Some [(ex_ind [Fin 2, Fin 0])\<lparr>ind_CV := Fin 1\<rparr>]\<rparr>) \<and>
   has_feasible_spec ex_pop \<and>
   RVEA_set_optimum has_feasible_spec ex_shell = Inr (ex_shell\<lparr>rv_opt := Some ex_pop\<rparr>)"
proof -
  let ?sh = "ex_shell\<lparr>rv_pop := ex_infeasible\<rparr>"
  have pre: "\<not> has_feasible_spec (rv_pop ?sh) \<and> rv_pop ?sh \<noteq> [] \<and>
      NaN \<notin> set (map ind_CV (rv_pop ?sh))"
    by (simp add: has_feasible_spec_def ex_infeasible_def ex_ind_def)
  from set_optimum_reports_least_infeasible_or_population [of has_feasible_spec ?sh] pre
  obtain i where i: "i < length ex_infeasible"
    and r: "RVEA_set_optimum has_feasible_spec ?sh = Inr (?sh\<lparr>rv_opt := Some [ex_infeasible ! i]\<rparr>)"
    and m: "\<forall>j<length ex_infeasible. fle (ind_CV (ex_infeasible ! i)) (ind_CV (ex_infeasible ! j))"
    and f: "\<forall>j<i. flt (ind_CV (ex_infeasible ! i)) (ind_CV (ex_infeasible ! j))"
    by auto
  from i have "i = 0 \<or> i = 1 \<or> i = 2" by (auto simp: ex_infeasible_def)
  moreover have "i \<noteq> 0"
  proof
    assume "i = 0"
    with m [rule_format, of 1] show False by (simp add: ex_infeasible_def ex_ind_def)
  qed
  moreover have "i \<noteq> 2"
  proof
    assume "i = 2"
    with f [rule_format, of 1] show False by (simp add: ex_infeasible_def ex_ind_def)
  qed
  ultimately have "i = 1" by blast
  with r have r1: "RVEA_set_optimum has_feasible_spec ?sh =
      Inr (?sh\<lparr>rv_opt := Some [(ex_ind [Fin 2, Fin 0])\<lparr>ind_CV := Fin 1\<rparr>]\<rparr>)"
    by (simp add: ex_infeasible_def)
  have fe: "has_feasible_spec (rv_pop ex_shell)"
    by (simp add: has_feasible_spec_def ex_shell_def ex_pop_def ex_ind_def)
  with set_optimum_reports_least_infeasible_or_population [of has_feasible_spec ex_shell]
  have r2: "RVEA_set_optimum has_feasible_spec ex_shell = Inr (ex_shell\<lparr>rv_opt := Some (rv_pop ex_shell)\<rparr>)"
    by blast
  show ?thesis using pre r1 fe r2 by (simp add: ex_shell_def)
qed

section \<open>Claims about selection\<close>

text \<open>
  C5. The ideal point. The constructor sets every component to \<open>+\<infinity>\<close>. A selection call
  on a population that is not empty, whose objective vectors have the length of the ideal
  point and hold no NaN, leaves as ideal point the component-wise minimum of the old one
  and the objective vectors: each component is at most the old component and at most
  that component of every individual, and it is one of them. Over any sequence of calls
  of selection and adaptation on populations without NaN, calls that raise included, no
  component of the ideal point is above its value at the start.
\<close>

theorem ideal_point_never_increases:
  "(APDSurvival_init ref_dirs alpha = Inr st0 \<longrightarrow>
      sv_ideal st0 = Some (replicate (n_dim_of ref_dirs) PInf)) \<and>
   (pop \<noteq> [] \<and> sv_ideal st = Some idl \<and> NaN \<notin> set idl \<and>
    (\<forall>c \<in> set pop. length (ind_F c) = length idl \<and> NaN \<notin> set (ind_F c)) \<longrightarrow>
      (\<exists>idl'. sv_ideal (fst (APDSurvival_do n_obj st pop trm)) = Some idl' \<and>
         length idl' = length idl \<and>
         (\<forall>j<length idl.
            fle (idl' ! j) (idl ! j) \<and>
            (\<forall>c \<in> set pop. fle (idl' ! j) (ind_F c ! j)) \<and>
            (idl' ! j = idl ! j \<or> (\<exists>c \<in> set pop. idl' ! j = ind_F c ! j))))) \<and>
   (sv_ideal st = Some idl \<and> NaN \<notin> set idl \<and> list_all no_NaN_call calls \<longrightarrow>
      (\<exists>idl'. sv_ideal (run_calls n_obj st calls) = Some idl' \<and> length idl' = length idl \<and>
         (\<forall>j<length idl. fle (idl' ! j) (idl ! j))))"
proof (intro conjI impI)
  assume "APDSurvival_init ref_dirs alpha = Inr st0"
  then show "sv_ideal st0 = Some (replicate (n_dim_of ref_dirs) PInf)"
    by (auto simp: APDSurvival_init_def split: sum.splits)
next
  assume a: "pop \<noteq> [] \<and> sv_ideal st = Some idl \<and> NaN \<notin> set idl \<and>
    (\<forall>c \<in> set pop. length (ind_F c) = length idl \<and> NaN \<notin> set (ind_F c))"
  then have "pop \<noteq> []"
    and "\<forall>c \<in> set pop. length (ind_F c) = length idl \<and> NaN \<notin> set (ind_F c)"
    and "NaN \<notin> set idl"
    by blast+
  note p = new_ideal_props [OF this]
  have "sv_ideal (fst (APDSurvival_do n_obj st pop trm)) =
      Some (map2 np_minimum (col_min (map ind_F pop)) idl)"
    using a by (simp add: do_ideal)
  with p
  show "\<exists>idl'. sv_ideal (fst (APDSurvival_do n_obj st pop trm)) = Some idl' \<and>
         length idl' = length idl \<and>
         (\<forall>j<length idl.
            fle (idl' ! j) (idl ! j) \<and>
            (\<forall>c \<in> set pop. fle (idl' ! j) (ind_F c ! j)) \<and>
            (idl' ! j = idl ! j \<or> (\<exists>c \<in> set pop. idl' ! j = ind_F c ! j)))"
    by blast
next
  assume "sv_ideal st = Some idl \<and> NaN \<notin> set idl \<and> list_all no_NaN_call calls"
  then have "sv_ideal st = Some idl" "NaN \<notin> set idl" "list_all no_NaN_call calls" by blast+
  from run_calls_ideal [OF this, of n_obj]
  show "\<exists>idl'. sv_ideal (run_calls n_obj st calls) = Some idl' \<and> length idl' = length idl \<and>
         (\<forall>j<length idl. fle (idl' ! j) (idl ! j))"
    by blast
qed

theorem ideal_point_never_increases_witness:
  "APDSurvival_init ex_ref_dirs 2 = Inr ex_state \<and>
   sv_ideal ex_state = Some (replicate (n_dim_of ex_ref_dirs) PInf) \<and>
   sv_ideal ex_state = Some [PInf, PInf] \<and>
   sv_ideal (fst (APDSurvival_do 2 ex_state ex_pop ex_term)) = Some [Fin 1, Fin 0] \<and>
   fle (Fin 1) PInf \<and> fle (Fin 0) PInf \<and>
   list_all no_NaN_call [Select ex_pop ex_term, Adapt, Select ex_pop ex_term] \<and>
   (\<exists>idl'. sv_ideal (run_calls 2 ex_state [Select ex_pop ex_term, Adapt, Select ex_pop ex_term])
              = Some idl' \<and>
           length idl' = 2 \<and> fle (idl' ! 0) PInf \<and> fle (idl' ! 1) PInf)"
proof -
  let ?calls = "[Select ex_pop ex_term, Adapt, Select ex_pop ex_term]"
  note t = ideal_point_never_increases [of ex_ref_dirs 2 ex_state ex_pop ex_state "[PInf, PInf]"
      2 ex_term ?calls]
  have i0: "sv_ideal ex_state = Some [PInf, PInf]" by (simp add: ex_state_def)
  have nn: "NaN \<notin> set [PInf, PInf]" by simp
  have calls: "list_all no_NaN_call ?calls" by (simp add: ex_pop_def ex_ind_def)
  from t ex_init have a: "sv_ideal ex_state = Some (replicate (n_dim_of ex_ref_dirs) PInf)"
    by blast
  from t i0 nn calls
  obtain idl' where s: "sv_ideal (run_calls 2 ex_state ?calls) = Some idl'"
    "length idl' = length [PInf, PInf]" "\<forall>j<length [PInf, PInf]. fle (idl' ! j) ([PInf, PInf] ! j)"
    by blast
  from s(3) [rule_format, of 0] s(3) [rule_format, of 1]
  have "fle (idl' ! 0) PInf" "fle (idl' ! 1) PInf" by simp_all
  with s have seq: "\<exists>idl'. sv_ideal (run_calls 2 ex_state ?calls) = Some idl' \<and>
      length idl' = 2 \<and> fle (idl' ! 0) PInf \<and> fle (idl' ! 1) PInf"
    by auto
  have one: "sv_ideal (fst (APDSurvival_do 2 ex_state ex_pop ex_term)) = Some [Fin 1, Fin 0]"
    by (simp add: ex_do ex_state_after_def)
  have le: "fle (Fin 1) PInf \<and> fle (Fin 0) PInf" by (simp add: fle_def)
  show ?thesis using ex_init a i0 one le calls seq by blast
qed

text \<open>
  C3. When selection returns, the survivors are at most as many as the reference
  directions, and exactly as many as the directions to which an individual is assigned.
  They come one for each such direction, in the order of the directions: their \<open>niche\<close>
  attributes list these directions; a direction with no individual is skipped. The
  engine records for each direction the individuals assigned to it.
\<close>

theorem one_survivor_per_nonempty_niche:
  assumes "APDSurvival_do n_obj st pop trm = (st', Inr (pop', ret))" "sv_ideal st = Some idl"
  shows "length ret \<le> length (sv_V st) \<and>
         length ret = card {k. k < length (sv_V st) \<and>
                               (\<exists>i<length pop. pop_niches idl (sv_V st) pop ! i = k)} \<and>
         map ind_niche ret =
           map Some (filter (\<lambda>k. \<exists>i<length pop. pop_niches idl (sv_V st) pop ! i = k)
                       [0..<length (sv_V st)]) \<and>
         sv_niches st' =
           Some (map (assigned_to (pop_niches idl (sv_V st) pop)) [0..<length (sv_V st)])"
proof -
  let ?V = "sv_V st"
  let ?ni = "pop_niches idl ?V pop"
  let ?n2i = "map (assigned_to ?ni) [0..<length ?V]"
  let ?L = "niche_loop"
  from do_Inr_guards [OF assms(1)] assms(2) obtain pw where
    g: "pop \<noteq> []" "\<forall>c \<in> set pop. length (ind_F c) = length idl" "?V \<noteq> []"
      "py_pow (perc trm) (sv_alpha st) = Inr pw"
    and w: "\<forall>v \<in> set ?V. length v = length idl"
    and gm: "\<forall>k<length ?V. assigned_to ?ni k \<noteq> [] \<longrightarrow> k < length (sv_gamma st)"
    by auto
  let ?loop = "niche_loop n_obj pw st idl pop"
  let ?surv = "niche_survivor n_obj pw (sv_gamma st) (pop_angle idl ?V pop) (pop_dist idl pop) ?n2i"
  let ?ks = "filter (\<lambda>k. assigned_to ?ni k \<noteq> []) [0..<length ?V]"
  from do_unfold [OF g(1) assms(2) g(2) w g(3,4) gm, of n_obj] assms(1)
  have ret: "ret = map (\<lambda>s. fst ?loop ! s) (snd ?loop)"
    and st': "sv_niches st' = Some (niches_to_ind (length ?V) ?ni)"
    by auto
  have ks: "?ks = filter (\<lambda>k. \<exists>i<length pop. ?ni ! i = k) [0..<length ?V]"
    by (rule filter_cong) (simp_all add: assigned_nonempty [OF pop_niches_length])
  have snd: "snd ?loop = map ?surv ?ks" by (rule niche_loop_snd [OF g(3)])
  have len: "length ret = length ?ks" by (simp add: ret snd)
  have le: "length ret \<le> length ?V"
    unfolding len using length_filter_le [of _ "[0..<length ?V]"] by simp
  have card: "length ret = card {k. k < length ?V \<and> (\<exists>i<length pop. ?ni ! i = k)}"
    unfolding len ks by (rule filter_upt_card)
  have niche: "ind_niche (fst ?loop ! ?surv k) = Some k" if "k \<in> set ?ks" for k
  proof -
    from that have "?n2i ! k \<noteq> []" by simp
    then have "?surv k \<in> set (?n2i ! k)" by (rule niche_survivor_mem)
    with that have m: "?surv k < length pop" "?ni ! ?surv k = k"
      by (simp_all add: assigned_to_set pop_niches_length)
    from niche_loop_nth [OF g(3) m(1), of n_obj pw idl] m(2)
    show ?thesis by (simp add: final_def)
  qed
  have "map ind_niche ret = map Some ?ks"
    unfolding ret snd by (simp add: niche)
  then show ?thesis using le card st' ks by (simp add: n2i_map [OF g(3)])
qed

theorem one_survivor_per_nonempty_niche_witness:
  "APDSurvival_do 2 ex_state ex_pop ex_term =
     (ex_state_after, Inr ([ex_survivor, ex_other], [ex_survivor])) \<and>
   sv_ideal ex_state = Some [PInf, PInf] \<and>
   pop_niches [PInf, PInf] (sv_V ex_state) ex_pop = [0, 0] \<and>
   length [ex_survivor] \<le> length (sv_V ex_state) \<and> length (sv_V ex_state) = 2 \<and>
   card {k. k < length (sv_V ex_state) \<and>
            (\<exists>i<length ex_pop. pop_niches [PInf, PInf] (sv_V ex_state) ex_pop ! i = k)} = 1 \<and>
   map ind_niche [ex_survivor] = [Some 0] \<and>
   sv_niches ex_state_after = Some [[0, 1], []]"
proof -
  have i: "sv_ideal ex_state = Some [PInf, PInf]" by (simp add: ex_state_def)
  have v: "sv_V ex_state = ex_ref_dirs" by (simp add: ex_state_def)
  note t = one_survivor_per_nonempty_niche [OF ex_do i]
  from t have "card {k. k < length (sv_V ex_state) \<and>
      (\<exists>i<length ex_pop. pop_niches [PInf, PInf] (sv_V ex_state) ex_pop ! i = k)} = length [ex_survivor]"
    by simp
  then have c: "card {k. k < length (sv_V ex_state) \<and>
      (\<exists>i<length ex_pop. pop_niches [PInf, PInf] (sv_V ex_state) ex_pop ! i = k)} = 1"
    by simp
  have n: "pop_niches [PInf, PInf] (sv_V ex_state) ex_pop = [0, 0]"
    by (simp add: v ex_niches)
  have l: "length [ex_survivor] \<le> length (sv_V ex_state) \<and> length (sv_V ex_state) = 2"
    by (simp add: v ex_ref_dirs_def)
  have m: "map ind_niche [ex_survivor] = [Some 0]" by (simp add: ex_survivor_def)
  have s: "sv_niches ex_state_after = Some [[0, 1], []]" by (simp add: ex_state_after_def)
  show ?thesis using ex_do i n l c m s by blast
qed




section \<open>Claims about the geometry\<close>







end
